theory Spec2Isabelle
  imports Main
begin

section \<open>Failures\<close>

text \<open>
  Every way the constructors of \<^verbatim>\<open>matcher.go\<close> can stop without a value is a constructor
  of \<open>error\<close>. The \<open>Err...\<close> values are the error codes of Go's \<^verbatim>\<open>regexp/syntax\<close>, which
  \<^verbatim>\<open>regexp.MustCompile\<close> turns into a panic. \<open>SliceBounds\<close> and \<open>IndexOutOfRange\<close>
  are the run-time panics of a slice expression and of an index expression.
  \<open>NotModelled\<close> is no behaviour of the program: it marks a pattern that uses
  syntax of the library beyond the fragment embedded below, about which this theory says
  nothing.
\<close>

datatype error =
    ErrMissingParen
  | ErrUnexpectedParen
  | ErrMissingRepeatArgument
  | ErrInvalidRepeatOp
  | ErrInvalidRepeatSize
  | ErrMissingBracket
  | ErrInvalidCharRange
  | SliceBounds
  | IndexOutOfRange
  | CustomPanic
  | NotModelled

section \<open>The regular expressions of the library\<close>

text \<open>
  \<^verbatim>\<open>regexp.MustCompile\<close> and \<^verbatim>\<open>(*Regexp).MatchString\<close> belong to Go's standard library,
  not to this package. They are embedded on the fragment of the documented syntax that
  the package's patterns are built from: literals, \<^verbatim>\<open>.\<close>, \<^verbatim>\<open>^\<close>, \<^verbatim>\<open>$\<close>, capture groups,
  \<^verbatim>\<open>|\<close>, bracket classes of characters and ranges, and the repetitions \<^verbatim>\<open>*\<close>, \<^verbatim>\<open>+\<close>,
  \<^verbatim>\<open>?\<close>, \<^verbatim>\<open>{n}\<close>, \<^verbatim>\<open>{n,}\<close>, \<^verbatim>\<open>{n,m}\<close> with their non-greedy forms. The flags are those
  of \<^verbatim>\<open>syntax.Perl\<close>: \<^verbatim>\<open>^\<close> and \<^verbatim>\<open>$\<close> are the beginning and the end of the text,
  \<^verbatim>\<open>.\<close> does not match a newline, a negated class does. Escapes, \<^verbatim>\<open>(?\<close> groups, named
  classes and bytes outside ASCII give \<open>NotModelled\<close>. Strings are byte strings; on an ASCII
  subject a byte is a rune. The resource limits of the library (nesting depth, program
  size) concern patterns of thousands of characters and are not embedded.
\<close>

datatype re =
    EmptyMatch
  | Literal char
  | AnyCharNotNL
  | CharClass bool "(char \<times> char) list"
  | BeginText
  | EndText
  | Capture re
  | Star re
  | Plus re
  | Quest re
  | Repeat nat "nat option" re
  | Concat re re
  | Alternate re re

subsection \<open>Matching\<close>

text \<open>
  A position is the unread rest of the subject together with the fact of standing at its
  very beginning. \<open>run r p\<close> lists the positions at which a match of \<open>r\<close> that starts at
  \<open>p\<close> can end. \<open>MatchString\<close> asks for a match starting anywhere, as the library does:
  which of several matches the library would report does not matter to its boolean.
\<close>

type_synonym pos = "bool \<times> string"

fun step_char :: "(char \<Rightarrow> bool) \<Rightarrow> pos \<Rightarrow> pos list" where
  "step_char ok (b, []) = []"
| "step_char ok (b, c # cs) = (if ok c then [(False, cs)] else [])"

definition in_ranges :: "(char \<times> char) list \<Rightarrow> char \<Rightarrow> bool" where
  "in_ranges rs c =
     list_ex (\<lambda>(lo, hi). (of_char lo :: nat) \<le> of_char c \<and> (of_char c :: nat) \<le> of_char hi) rs"

definition bind_pos :: "(pos \<Rightarrow> pos list) \<Rightarrow> pos list \<Rightarrow> pos list" where
  "bind_pos f ps = remdups (concat (map f ps))"

text \<open>\<open>iter_exact f n ps\<close>: exactly \<open>n\<close> rounds of \<open>f\<close>; \<open>iter_upto f n ps\<close>: any number
  of rounds from \<open>0\<close> to \<open>n\<close>.\<close>

primrec iter_exact :: "(pos \<Rightarrow> pos list) \<Rightarrow> nat \<Rightarrow> pos list \<Rightarrow> pos list" where
  "iter_exact f 0 ps = ps"
| "iter_exact f (Suc n) ps = iter_exact f n (bind_pos f ps)"

primrec iter_upto :: "(pos \<Rightarrow> pos list) \<Rightarrow> nat \<Rightarrow> pos list \<Rightarrow> pos list" where
  "iter_upto f 0 ps = ps"
| "iter_upto f (Suc n) ps = remdups (ps @ iter_upto f n (bind_pos f ps))"

text \<open>
  An unbounded repetition is cut at one round more than the subject has characters left.
  The cut loses nothing: a round either shortens the rest or stays where it is, so what
  any number of rounds reaches is reached within that many (lemmas \<open>run_Star\<close>,
  \<open>run_Plus\<close> and \<open>run_Repeat_unbounded\<close> below).
\<close>

primrec run :: "re \<Rightarrow> pos \<Rightarrow> pos list" where
  "run EmptyMatch p = [p]"
| "run (Literal c) p = step_char (\<lambda>x. x = c) p"
| "run AnyCharNotNL p = step_char (\<lambda>x. x \<noteq> CHR 0x0A) p"
| "run (CharClass neg rs) p = step_char (\<lambda>x. in_ranges rs x \<noteq> neg) p"
| "run BeginText p = (if fst p then [p] else [])"
| "run EndText p = (if snd p = [] then [p] else [])"
| "run (Capture r) p = run r p"
| "run (Star r) p = iter_upto (run r) (Suc (length (snd p))) [p]"
| "run (Plus r) p = iter_upto (run r) (Suc (length (snd p))) (run r p)"
| "run (Quest r) p = remdups (p # run r p)"
| "run (Repeat mn mx r) p =
     (case mx of
        None \<Rightarrow> iter_upto (run r) (Suc (length (snd p))) (iter_exact (run r) mn [p])
      | Some m \<Rightarrow> iter_upto (run r) (m - mn) (iter_exact (run r) mn [p]))"
| "run (Concat r1 r2) p = bind_pos (run r2) (run r1 p)"
| "run (Alternate r1 r2) p = remdups (run r1 p @ run r2 p)"

primrec tails :: "string \<Rightarrow> string list" where
  "tails [] = [] # []"
| "tails (c # cs) = (c # cs) # tails cs"

definition starts :: "string \<Rightarrow> pos list" where
  "starts s = (True, s) # map (Pair False) (tl (tails s))"

definition MatchString :: "re \<Rightarrow> string \<Rightarrow> bool" where
  "MatchString r s = list_ex (\<lambda>p. run r p \<noteq> []) (starts s)"

subsection \<open>Parsing\<close>

text \<open>
  The parser follows \<^verbatim>\<open>syntax.Parse\<close>: one pass from left to right over the pattern,
  with a stack of the groups that are open. A frame holds, for one open group, the
  alternatives finished so far and the pieces of the alternative being read, both newest
  first. \<open>lastRepeat\<close> says that the piece just read was a repetition operator, which
  the Perl flavour does not let another one follow.
\<close>

type_synonym frame = "re list \<times> re list"

definition ascii :: "char \<Rightarrow> bool" where
  "ascii c = ((of_char c :: nat) < 128)"

definition is_digit :: "char \<Rightarrow> bool" where
  "is_digit c = (48 \<le> (of_char c :: nat) \<and> (of_char c :: nat) \<le> 57)"

definition digit_val :: "char \<Rightarrow> nat" where
  "digit_val c = of_char c - 48"

text \<open>\<^verbatim>\<open>parseInt\<close>: a run of digits without a leading zero. Where the library gives
  \<open>-1\<close> for a number of nine digits or more, the embedding keeps the number, which the
  caller refuses as well, being above 1000.\<close>

definition parseInt :: "string \<Rightarrow> (nat \<times> string) option" where
  "parseInt s =
     (case s of
        [] \<Rightarrow> None
      | c # t \<Rightarrow>
          if \<not> is_digit c then None
          else if c = CHR ''0'' \<and> t \<noteq> [] \<and> is_digit (hd t) then None
          else Some (foldl (\<lambda>n d. n * 10 + digit_val d) 0 (takeWhile is_digit s),
                     dropWhile is_digit s))"

definition close_brace :: "nat \<Rightarrow> nat option \<Rightarrow> string \<Rightarrow> (nat \<times> nat option \<times> string) option"
  where
  "close_brace mn mx s =
     (case s of [] \<Rightarrow> None | c # rest \<Rightarrow> if c = CHR ''}'' then Some (mn, mx, rest) else None)"

text \<open>\<^verbatim>\<open>parseRepeat\<close>: \<^verbatim>\<open>{n}\<close>, \<^verbatim>\<open>{n,}\<close> or \<^verbatim>\<open>{n,m}\<close> at the head of \<open>s\<close>, with the rest
  of the pattern; \<open>None\<close> when the braces hold anything else.\<close>

definition parseRepeat :: "string \<Rightarrow> (nat \<times> nat option \<times> string) option" where
  "parseRepeat s =
     (case s of
        [] \<Rightarrow> None
      | c # s1 \<Rightarrow>
          if c \<noteq> CHR ''{'' then None
          else
            (case parseInt s1 of
               None \<Rightarrow> None
             | Some (mn, s2) \<Rightarrow>
                 (case s2 of
                    [] \<Rightarrow> None
                  | d # s3 \<Rightarrow>
                      if d \<noteq> CHR '','' then close_brace mn (Some mn) s2
                      else
                        (case s3 of
                           [] \<Rightarrow> None
                         | e # s4 \<Rightarrow>
                             if e = CHR ''}'' then close_brace mn None s3
                             else
                               (case parseInt s3 of
                                  None \<Rightarrow> None
                                | Some (mx, s5) \<Rightarrow> close_brace mn (Some mx) s5)))))"

text \<open>The items of a bracket class up to its closing bracket. A bracket that comes
  first is an item. A backslash, a byte outside ASCII and the opening of a named class
  leave the fragment.\<close>

fun parseClassItems ::
  "bool \<Rightarrow> (char \<times> char) list \<Rightarrow> string \<Rightarrow> error + ((char \<times> char) list \<times> string)" where
  "parseClassItems first acc [] = Inl ErrMissingBracket"
| "parseClassItems first acc (c # t) =
     (if c = CHR '']'' \<and> \<not> first then Inr (acc, t)
      else if c = CHR ''['' \<and> 2 \<le> length t \<and> hd t = CHR '':'' then Inl NotModelled
      else if c = CHR 0x5C \<or> \<not> ascii c then Inl NotModelled
      else
        (case t of
           d # hi # t2 \<Rightarrow>
             if d = CHR ''-'' \<and> hi \<noteq> CHR '']'' then
               (if hi = CHR 0x5C \<or> \<not> ascii hi then Inl NotModelled
                else if (of_char hi :: nat) < of_char c then Inl ErrInvalidCharRange
                else parseClassItems False (acc @ [(c, hi)]) t2)
             else parseClassItems False (acc @ [(c, c)]) t
         | _ \<Rightarrow> parseClassItems False (acc @ [(c, c)]) t))"

definition parseClass :: "string \<Rightarrow> error + (re \<times> string)" where
  "parseClass s =
     (let t = tl s;
          neg = (t \<noteq> [] \<and> hd t = CHR ''^'');
          t1 = (if neg then tl t else t)
      in case parseClassItems True [] t1 of
           Inl e \<Rightarrow> Inl e
         | Inr (rs, rest) \<Rightarrow> Inr (CharClass neg rs, rest))"

fun mk_concat :: "re list \<Rightarrow> re" where
  "mk_concat [] = EmptyMatch"
| "mk_concat [r] = r"
| "mk_concat (r # rs) = Concat r (mk_concat rs)"

fun mk_alternate :: "re list \<Rightarrow> re" where
  "mk_alternate [] = EmptyMatch"
| "mk_alternate [r] = r"
| "mk_alternate (r # rs) = Alternate r (mk_alternate rs)"

definition push :: "re \<Rightarrow> frame \<Rightarrow> frame" where
  "push r f = (fst f, r # snd f)"

text \<open>\<^verbatim>\<open>parseVerticalBar\<close>: the alternative being read is finished.\<close>

definition bar :: "frame \<Rightarrow> frame" where
  "bar f = (mk_concat (rev (snd f)) # fst f, [])"

text \<open>The expression of a group whose end has been reached (\<^verbatim>\<open>concat\<close>, then
  \<^verbatim>\<open>alternate\<close>).\<close>

definition close_frame :: "frame \<Rightarrow> re" where
  "close_frame f = mk_alternate (rev (mk_concat (rev (snd f)) # fst f))"

fun repeatIsValid :: "re \<Rightarrow> nat \<Rightarrow> bool" where
  "repeatIsValid (Repeat mn mx r) n =
     (if mx = Some 0 then True
      else
        (let m = (case mx of None \<Rightarrow> mn | Some k \<Rightarrow> k) in
         if n < m then False
         else repeatIsValid r (if 0 < m then n div m else n)))"
| "repeatIsValid (Capture r) n = repeatIsValid r n"
| "repeatIsValid (Star r) n = repeatIsValid r n"
| "repeatIsValid (Plus r) n = repeatIsValid r n"
| "repeatIsValid (Quest r) n = repeatIsValid r n"
| "repeatIsValid (Concat r1 r2) n = (repeatIsValid r1 n \<and> repeatIsValid r2 n)"
| "repeatIsValid (Alternate r1 r2) n = (repeatIsValid r1 n \<and> repeatIsValid r2 n)"
| "repeatIsValid r n = True"

text \<open>\<^verbatim>\<open>repeat\<close>: the operator applies to the piece read last. It is refused after
  another operator, and where the alternative or the group has no piece yet.\<close>

definition repeat_top :: "(re \<Rightarrow> re) \<Rightarrow> bool \<Rightarrow> frame \<Rightarrow> error + frame" where
  "repeat_top mk lastRepeat f =
     (if lastRepeat then Inl ErrInvalidRepeatOp
      else
        (case snd f of
           [] \<Rightarrow> Inl ErrMissingRepeatArgument
         | r # rs \<Rightarrow> Inr (fst f, mk r # rs)))"

definition op_of :: "char \<Rightarrow> re \<Rightarrow> re" where
  "op_of c = (if c = CHR ''*'' then Star else if c = CHR ''+'' then Plus else Quest)"

text \<open>A \<^verbatim>\<open>?\<close> right after an operator makes it non-greedy, which changes the match the
  library prefers and not whether there is one.\<close>

definition strip_lazy :: "string \<Rightarrow> string" where
  "strip_lazy t = (case t of [] \<Rightarrow> [] | c # t' \<Rightarrow> if c = CHR ''?'' then t' else t)"

definition bad_size :: "nat \<Rightarrow> nat option \<Rightarrow> bool" where
  "bad_size mn mx =
     (1000 < mn \<or> (case mx of None \<Rightarrow> False | Some m \<Rightarrow> 1000 < m \<or> m < mn))"

definition deep_repeat :: "nat \<Rightarrow> nat option \<Rightarrow> frame \<Rightarrow> bool" where
  "deep_repeat mn mx f =
     ((2 \<le> mn \<or> (case mx of None \<Rightarrow> False | Some m \<Rightarrow> 2 \<le> m)) \<and>
      (case snd f of [] \<Rightarrow> False | r # rs \<Rightarrow> \<not> repeatIsValid r 1000))"

lemma parseClassItems_shorter:
  "parseClassItems first acc t = Inr (rs, rest) \<Longrightarrow> length rest < length t"
  by (induction first acc t rule: parseClassItems.induct)
     (auto split: if_splits list.splits)

lemma parseClass_shorter:
  "parseClass (c # t) = Inr (r, rest) \<Longrightarrow> length rest < Suc (length t)"
  by (auto simp: parseClass_def Let_def split: sum.splits if_splits
           dest!: parseClassItems_shorter)

lemma parseInt_shorter: "parseInt s = Some (n, rest) \<Longrightarrow> length rest \<le> length s"
  by (auto simp: parseInt_def length_dropWhile_le le_SucI split: list.splits if_splits)

lemma close_brace_shorter: "close_brace mn mx s = Some (a, b, rest) \<Longrightarrow> length rest < length s"
  by (auto simp: close_brace_def split: list.splits if_splits)

lemma parseRepeat_shorter:
  "parseRepeat (c # t) = Some (mn, mx, rest) \<Longrightarrow> length rest < Suc (length t)"
  by (auto simp: parseRepeat_def split: list.splits if_splits option.splits
           dest!: parseInt_shorter close_brace_shorter)

lemma strip_lazy_shorter: "length (strip_lazy t) \<le> length t"
  by (simp add: strip_lazy_def split: list.splits)

function parse :: "frame list \<Rightarrow> frame \<Rightarrow> bool \<Rightarrow> string \<Rightarrow> error + re" where
  "parse st f lastRepeat [] =
     (case st of [] \<Rightarrow> Inr (close_frame f) | g # st' \<Rightarrow> Inl ErrMissingParen)"
| "parse st f lastRepeat (c # t) =
     (if c = CHR ''('' then
        (if t \<noteq> [] \<and> hd t = CHR ''?'' then Inl NotModelled
         else parse (f # st) ([], []) False t)
      else if c = CHR ''|'' then parse st (bar f) False t
      else if c = CHR '')'' then
        (case st of
           [] \<Rightarrow> Inl ErrUnexpectedParen
         | g # st' \<Rightarrow> parse st' (push (Capture (close_frame f)) g) False t)
      else if c = CHR ''^'' then parse st (push BeginText f) False t
      else if c = CHR ''$'' then parse st (push EndText f) False t
      else if c = CHR ''.'' then parse st (push AnyCharNotNL f) False t
      else if c = CHR ''['' then
        (case parseClass (c # t) of
           Inl e \<Rightarrow> Inl e
         | Inr (r, t') \<Rightarrow> parse st (push r f) False t')
      else if c = CHR ''*'' \<or> c = CHR ''+'' \<or> c = CHR ''?'' then
        (case repeat_top (op_of c) lastRepeat f of
           Inl e \<Rightarrow> Inl e
         | Inr f' \<Rightarrow> parse st f' True (strip_lazy t))
      else if c = CHR ''{'' then
        (case parseRepeat (c # t) of
           None \<Rightarrow> parse st (push (Literal c) f) False t
         | Some (mn, mx, after) \<Rightarrow>
             if bad_size mn mx then Inl ErrInvalidRepeatSize
             else
               (case repeat_top (Repeat mn mx) lastRepeat f of
                  Inl e \<Rightarrow> Inl e
                | Inr f' \<Rightarrow>
                    if deep_repeat mn mx f' then Inl ErrInvalidRepeatSize
                    else parse st f' True (strip_lazy after)))
      else if c = CHR 0x5C \<or> \<not> ascii c then Inl NotModelled
      else parse st (push (Literal c) f) False t)"
  by pat_completeness auto
termination
proof (relation "measure (\<lambda>(st, f, lastRepeat, s). length s)")
  fix c :: char and t r t' x
  assume "parseClass (c # t) = Inr x" and "(r, t') = x"
  then have "length t' < Suc (length t)"
    using parseClass_shorter [of c t r t'] by simp
  then show "((st, push r f, False, t'), (st0, f0, l0, c # t)) \<in>
      measure (\<lambda>(st, f, lastRepeat, s). length s)"
    for st st0 :: "frame list" and f f0 :: frame and l0 :: bool
    by simp
next
  fix c :: char and t mn mx after x y
  assume "parseRepeat (c # t) = Some x" and "(mn, y) = x" and "(mx, after) = y"
  then have "length after < Suc (length t)"
    using parseRepeat_shorter [of c t mn mx after] by simp
  then have "length (strip_lazy after) < Suc (length t)"
    using strip_lazy_shorter [of after] by linarith
  then show "((st, f', True, strip_lazy after), (st0, f0, l0, c # t)) \<in>
      measure (\<lambda>(st, f, lastRepeat, s). length s)"
    for st st0 :: "frame list" and f' f0 :: frame and l0 :: bool
    by simp
qed (simp_all add: le_imp_less_Suc [OF strip_lazy_shorter])

text \<open>\<^verbatim>\<open>regexp.MustCompile\<close>: the parsed expression, or the panic as an error value.\<close>

definition MustCompile :: "string \<Rightarrow> error + re" where
  "MustCompile s = parse [] ([], []) False s"

section \<open>Requests and matchers\<close>

text \<open>
  Of \<^verbatim>\<open>*http.Request\<close> the matchers read \<^verbatim>\<open>r.URL.Scheme\<close>, \<^verbatim>\<open>r.URL.Path\<close> and
  \<^verbatim>\<open>r.Header\<close>. The header collection is its lookup: the values stored under a name.
  A request that reaches a matcher has its \<^verbatim>\<open>URL\<close>, as every request that the server
  hands to a handler has; the nil pointer is no value of the record.
\<close>

record request =
  URL_Scheme :: string
  URL_Path :: string
  Header :: "string \<Rightarrow> string list"

definition rankAny :: int where "rankAny = 0"
definition rankPath :: int where "rankPath = 1"
definition rankScheme :: int where "rankScheme = 2"

text \<open>
  Modelled from the spec: the type \<^verbatim>\<open>comparison\<close>, which \<^verbatim>\<open>matcher.go\<close> uses and does not
  declare. The spec calls it a value that is either an exact string or a compiled pattern,
  evaluated against a candidate string.
\<close>

datatype comparison = Exact string | Pattern re

fun compare :: "comparison \<Rightarrow> string \<Rightarrow> bool" where
  "compare (Exact s) v = (s = v)"
| "compare (Pattern r) v = MatchString r v"

text \<open>
  Modelled from the spec: the function \<^verbatim>\<open>matchMap\<close>, which \<^verbatim>\<open>matcher.go\<close> calls and does
  not define, for the flag \<^verbatim>\<open>requireAll = true\<close> that both header matchers pass. The spec:
  every mapped name must have at least one actual value satisfying its comparison, and the
  routine returns whether the mapping is satisfied. The mapping is the list of its
  entries.
\<close>

definition matchMap :: "(string \<times> comparison) list \<Rightarrow> (string \<Rightarrow> string list) \<Rightarrow> bool" where
  "matchMap m h = list_all (\<lambda>(name, c). list_ex (compare c) (h name)) m"

text \<open>
  The seven kinds of \<^verbatim>\<open>Matcher\<close>. A \<^verbatim>\<open>MatcherFunc\<close> is a function of the caller's that
  receives the pointer to the request: what it returns is its boolean together with the
  request as it leaves it, or its panic.
\<close>

datatype matcher =
    headerMatcher "(string \<times> comparison) list"
  | headerRegexMatcher "(string \<times> comparison) list"
  | MatcherFunc "request \<Rightarrow> error + (bool \<times> request)"
  | schemeMatcher "string set"
  | pathMatcher string
  | pathWithVarsMatcher re
  | pathRegexMatcher re

fun Rank :: "matcher \<Rightarrow> int" where
  "Rank (headerMatcher m) = rankAny"
| "Rank (headerRegexMatcher m) = rankAny"
| "Rank (MatcherFunc f) = rankAny"
| "Rank (schemeMatcher m) = rankScheme"
| "Rank (pathMatcher m) = rankPath"
| "Rank (pathWithVarsMatcher r) = rankPath"
| "Rank (pathRegexMatcher r) = rankPath"

text \<open>
  \<open>Match m r\<close> is the boolean of \<^verbatim>\<open>m.Match(r)\<close> with the matcher and the request as
  they are after the call, or the panic of the call.
\<close>

fun Match :: "matcher \<Rightarrow> request \<Rightarrow> error + (bool \<times> matcher \<times> request)" where
  "Match (headerMatcher m) r = Inr (matchMap m (Header r), headerMatcher m, r)"
| "Match (headerRegexMatcher m) r = Inr (matchMap m (Header r), headerRegexMatcher m, r)"
| "Match (MatcherFunc f) r =
     (case f r of Inl e \<Rightarrow> Inl e | Inr (b, r') \<Rightarrow> Inr (b, MatcherFunc f, r'))"
| "Match (schemeMatcher m) r = Inr (URL_Scheme r \<in> m, schemeMatcher m, r)"
| "Match (pathMatcher m) r = Inr (m = URL_Path r, pathMatcher m, r)"
| "Match (pathWithVarsMatcher re) r = Inr (MatchString re (URL_Path r), pathWithVarsMatcher re, r)"
| "Match (pathRegexMatcher re) r = Inr (MatchString re (URL_Path r), pathRegexMatcher re, r)"

subsection \<open>The scheme matcher\<close>





subsection \<open>The path template\<close>

record variable =
  firstIndex :: nat
  lastIndex :: nat

text \<open>The slice expression \<^verbatim>\<open>s[lo:hi]\<close>, which panics unless \<open>lo \<le> hi \<le> len(s)\<close>.\<close>

definition slice :: "string \<Rightarrow> nat \<Rightarrow> nat \<Rightarrow> error + string" where
  "slice s lo hi =
     (if lo \<le> hi \<and> hi \<le> length s then Inr (take (hi - lo) (drop lo s)) else Inl SliceBounds)"

text \<open>
  One round of the loop of \<^verbatim>\<open>newPathWithVarsMatcher\<close>, at index \<open>i\<close>, on the template
  and the variable as they stand. The slices \<^verbatim>\<open>path[:first]\<close> and \<^verbatim>\<open>path[last:]\<close> come
  after \<^verbatim>\<open>path[first:last]\<close> has passed its bounds check, so they cannot panic.
\<close>

definition scan_step :: "nat \<Rightarrow> string \<times> variable \<Rightarrow> error + (string \<times> variable)" where
  "scan_step i st =
     (let path = fst st; vars = snd st in
      if \<not> i < length path then Inl IndexOutOfRange
      else if path ! i = CHR '':'' then Inr (path, vars\<lparr>firstIndex := i\<rparr>)
      else if firstIndex vars \<noteq> 0 \<and> (path ! i = CHR ''/'' \<or> i = length path - 1) then
        (let vars1 = vars\<lparr>lastIndex := i\<rparr>;
             vars2 = (if lastIndex vars1 = length path - 1
                      then vars1\<lparr>lastIndex := lastIndex vars1 + 1\<rparr> else vars1)
         in case slice path (firstIndex vars2) (lastIndex vars2) of
              Inl e \<Rightarrow> Inl e
            | Inr seg \<Rightarrow>
                if seg = '':number'' then
                  Inr (take (firstIndex vars2) path @ ''([0-9]{1,})'' @ drop (lastIndex vars2) path,
                       \<lparr>firstIndex = 0, lastIndex = 0\<rparr>)
                else if seg = '':string'' then
                  Inr (take (firstIndex vars2) path @ ''([a-zA-Z]{1,})'' @ drop (lastIndex vars2) path,
                       \<lparr>firstIndex = 0, lastIndex = 0\<rparr>)
                else Inr (path, vars2))
      else Inr (path, vars))"

lemma slice_Inr:
  "slice s lo hi = Inr seg \<Longrightarrow>
     lo \<le> hi \<and> hi \<le> length s \<and> length seg = hi - lo \<and> s = take lo s @ seg @ drop hi s"
proof -
  assume a: "slice s lo hi = Inr seg"
  then have b: "lo \<le> hi" "hi \<le> length s" and seg: "seg = take (hi - lo) (drop lo s)"
    by (auto simp: slice_def split: if_splits)
  have "drop (hi - lo) (drop lo s) = drop hi s" using b by simp
  then have "drop lo s = seg @ drop hi s"
    using append_take_drop_id [of "hi - lo" "drop lo s"] seg by simp
  then have "s = take lo s @ seg @ drop hi s"
    using append_take_drop_id [of lo s] by simp
  then show ?thesis using b seg by simp
qed

lemma splice_measure:
  assumes sl: "slice s lo hi = Inr seg" and c: "count_list seg CHR '':'' = 1"
    and n: "count_list new CHR '':'' = 0" and l: "length new \<le> length seg + 7"
  shows "8 * count_list (take lo s @ new @ drop hi s) CHR '':'' + length (take lo s @ new @ drop hi s)
           < 8 * count_list s CHR '':'' + length s"
proof -
  define a where "a = take lo s"
  define d where "d = drop hi s"
  from slice_Inr [OF sl] have e: "s = a @ seg @ d"
    unfolding a_def d_def by blast
  have "8 * count_list (a @ new @ d) CHR '':'' + length (a @ new @ d)
          < 8 * count_list (a @ seg @ d) CHR '':'' + length (a @ seg @ d)"
    using c n l by simp
  then show ?thesis
    unfolding a_def [symmetric] d_def [symmetric] using e by simp
qed

lemma scan_step_measure:
  assumes "scan_step i st = Inr st'"
  shows "8 * count_list (fst st') CHR '':'' + length (fst st')
           \<le> 8 * count_list (fst st) CHR '':'' + length (fst st)"
proof -
  obtain path vars where st: "st = (path, vars)" by (cases st)
  define l where "l = (if i = length path - 1 then i + 1 else i)"
  show ?thesis
  proof (cases "path ! i \<noteq> CHR '':'' \<and> firstIndex vars \<noteq> 0 \<and>
                (path ! i = CHR ''/'' \<or> i = length path - 1)")
    case False
    then show ?thesis using assms st
      by (auto simp: scan_step_def Let_def split: if_splits)
  next
    case True
    then obtain seg where seg: "slice path (firstIndex vars) l = Inr seg"
      using assms st by (auto simp: scan_step_def Let_def l_def split: if_splits sum.splits)
    consider (num) "seg = '':number''" | (str) "seg \<noteq> '':number''" "seg = '':string''"
      | (other) "seg \<noteq> '':number''" "seg \<noteq> '':string''" by blast
    then show ?thesis
    proof cases
      case num
      then have "fst st' = take (firstIndex vars) path @ ''([0-9]{1,})'' @ drop l path"
        using assms st True seg by (auto simp: scan_step_def Let_def l_def split: if_splits)
      then show ?thesis
        using splice_measure [OF seg, of "''([0-9]{1,})''"] num st by simp
    next
      case str
      then have "fst st' = take (firstIndex vars) path @ ''([a-zA-Z]{1,})'' @ drop l path"
        using assms st True seg by (auto simp: scan_step_def Let_def l_def split: if_splits)
      then show ?thesis
        using splice_measure [OF seg, of "''([a-zA-Z]{1,})''"] str st by simp
    next
      case other
      then have "fst st' = path"
        using assms st True seg by (auto simp: scan_step_def Let_def l_def split: if_splits)
      then show ?thesis using st by simp
    qed
  qed
qed

function scan_loop :: "nat \<Rightarrow> string \<times> variable \<Rightarrow> error + (string \<times> variable)" where
  "scan_loop i st =
     (if i < length (fst st) then
        (case scan_step i st of Inl e \<Rightarrow> Inl e | Inr st' \<Rightarrow> scan_loop (i + 1) st')
      else Inr st)"
  by pat_completeness auto
termination
proof (relation "measure (\<lambda>(i, st). 8 * count_list (fst st) CHR '':'' + length (fst st) - i)")
  fix i :: nat and st st' :: "string \<times> variable"
  assume "i < length (fst st)" and "scan_step i st = Inr st'"
  then show "((i + 1, st'), (i, st))
      \<in> measure (\<lambda>(i, st). 8 * count_list (fst st) CHR '':'' + length (fst st) - i)"
    using scan_step_measure [of i st st'] by simp
qed simp

definition newPathWithVarsMatcher :: "string \<Rightarrow> error + matcher" where
  "newPathWithVarsMatcher path =
     (case scan_loop 0 (path, \<lparr>firstIndex = 0, lastIndex = 0\<rparr>) of
        Inl e \<Rightarrow> Inl e
      | Inr st \<Rightarrow>
          (case MustCompile (''^'' @ fst st @ ''$'') of
             Inl e \<Rightarrow> Inl e
           | Inr re \<Rightarrow> Inr (pathWithVarsMatcher re)))"

subsection \<open>The path pattern\<close>

text \<open>\<^verbatim>\<open>strings.Replace(s, old, new, -1)\<close> for a non-empty \<open>old\<close>: every occurrence, from
  the left, without overlap. (With an empty \<open>old\<close> the library inserts \<open>new\<close> around
  every rune; the package never asks for that, and the embedding returns \<open>s\<close>.)\<close>

function Replace :: "string \<Rightarrow> string \<Rightarrow> string \<Rightarrow> string" where
  "Replace s old new =
     (if old = [] \<or> s = [] then s
      else if take (length old) s = old then new @ Replace (drop (length old) s) old new
      else hd s # Replace (tl s) old new)"
  by pat_completeness auto
termination
  by (relation "measure (\<lambda>(s, old, new). length s)") auto

declare Replace.simps [simp del]

definition newPathRegexMatcher :: "string \<Rightarrow> error + matcher" where
  "newPathRegexMatcher path =
     (case MustCompile (''^'' @ Replace path ''#'' [] @ ''$'') of
        Inl e \<Rightarrow> Inl e
      | Inr re \<Rightarrow> Inr (pathRegexMatcher re))"

subsection \<open>The collection\<close>

definition Len :: "matcher list \<Rightarrow> int" where
  "Len m = int (length m)"

definition in_range :: "matcher list \<Rightarrow> int \<Rightarrow> bool" where
  "in_range m i = (0 \<le> i \<and> i < int (length m))"

definition Swap :: "matcher list \<Rightarrow> int \<Rightarrow> int \<Rightarrow> error + matcher list" where
  "Swap m i j =
     (if in_range m i \<and> in_range m j then Inr (m[nat i := m ! nat j, nat j := m ! nat i])
      else Inl IndexOutOfRange)"

definition Less :: "matcher list \<Rightarrow> int \<Rightarrow> int \<Rightarrow> error + bool" where
  "Less m i j =
     (if in_range m i \<and> in_range m j then Inr (Rank (m ! nat i) < Rank (m ! nat j))
      else Inl IndexOutOfRange)"

text \<open>
  \<^verbatim>\<open>sort.Sort\<close> of the library on a collection of at most twelve elements is an insertion
  sort through \<^verbatim>\<open>Len\<close>, \<^verbatim>\<open>Less\<close> and \<^verbatim>\<open>Swap\<close>: for \<open>i\<close> from 1 below \<open>Len\<close>, the element
  at \<open>i\<close> moves down while it is less than the one below it. What the library does on a
  longer collection is not embedded.
\<close>

fun sink :: "matcher list \<Rightarrow> nat \<Rightarrow> error + matcher list" where
  "sink m 0 = Inr m"
| "sink m (Suc j) =
     (case Less m (int (Suc j)) (int j) of
        Inl e \<Rightarrow> Inl e
      | Inr b \<Rightarrow>
          if b then (case Swap m (int (Suc j)) (int j) of Inl e \<Rightarrow> Inl e | Inr m' \<Rightarrow> sink m' j)
          else Inr m)"

fun insertionSort :: "matcher list \<Rightarrow> nat list \<Rightarrow> error + matcher list" where
  "insertionSort m [] = Inr m"
| "insertionSort m (i # is) =
     (case sink m i of Inl e \<Rightarrow> Inl e | Inr m' \<Rightarrow> insertionSort m' is)"

definition Sort :: "matcher list \<Rightarrow> error + matcher list" where
  "Sort m = (if 12 < Len m then Inl NotModelled else insertionSort m [1 ..< nat (Len m)])"

section \<open>Vocabulary of the properties\<close>

text \<open>
  The result of \<^verbatim>\<open>Match\<close> on a matcher as its constructor returned it: the panic of the
  constructor, the panic of the call, or the boolean.
\<close>

definition matchResult :: "error + matcher \<Rightarrow> request \<Rightarrow> error + bool" where
  "matchResult cm r =
     (case cm of
        Inl e \<Rightarrow> Inl e
      | Inr m \<Rightarrow> (case Match m r of Inl e \<Rightarrow> Inl e | Inr (b, m', r') \<Rightarrow> Inr b))"

text \<open>A request that carries a path and nothing else.\<close>

definition bare :: "string \<Rightarrow> request" where
  "bare p = \<lparr>URL_Scheme = [], URL_Path = p, Header = (\<lambda>name. [])\<rparr>"

text \<open>An expression matches the whole of a text: some match starts at its beginning and
  ends at its end.\<close>

definition fullMatch :: "re \<Rightarrow> string \<Rightarrow> bool" where
  "fullMatch r s = list_ex (\<lambda>p. snd p = []) (run r (True, s))"

text \<open>A character that the parser of patterns reads as itself.\<close>

definition plain_char :: "char \<Rightarrow> bool" where
  "plain_char c = (ascii c \<and> c \<notin> set ''(|)^$.[*+?{'' \<and> c \<noteq> CHR 0x5C)"

text \<open>The expression of the pattern \<^verbatim>\<open>^t$\<close> for a text \<open>t\<close> of such characters.\<close>

definition exact :: "string \<Rightarrow> re" where
  "exact t = mk_concat (BeginText # map Literal t @ [EndText])"

text \<open>The end index of the token whose end the scan meets at index \<open>i\<close>: the index
  itself, or one past it at the last character of the template.\<close>

definition token_end :: "nat \<Rightarrow> string \<Rightarrow> nat" where
  "token_end i path = (if i = length path - 1 then i + 1 else i)"

text \<open>The two placeholder keywords.\<close>

definition keyword :: "string \<Rightarrow> bool" where
  "keyword kw = (kw = '':number'' \<or> kw = '':string'')"


text \<open>One position follows another: its rest is shorter, or it is the same position. A
  round is tame when every position it gives follows the one it started from.\<close>

definition follows :: "pos \<Rightarrow> pos \<Rightarrow> bool" where
  "follows q q' = (length (snd q') < length (snd q) \<or> q' = q)"

definition tame :: "(pos \<Rightarrow> pos list) \<Rightarrow> bool" where
  "tame f = (\<forall>q q'. q' \<in> set (f q) \<longrightarrow> follows q q')"


section \<open>Lemmas\<close>

subsection \<open>The cut of the unbounded repetitions\<close>

lemma follows_refl: "follows q q"
  by (simp add: follows_def)

lemma follows_trans: "follows a b \<Longrightarrow> follows b c \<Longrightarrow> follows a c"
  by (auto simp: follows_def)

lemma follows_length: "follows q q' \<Longrightarrow> length (snd q') \<le> length (snd q)"
  by (auto simp: follows_def)

lemma set_bind_pos: "set (bind_pos f ps) = (\<Union>q \<in> set ps. set (f q))"
  by (simp add: bind_pos_def)

lemma set_iter_exact_split:
  "set (iter_exact f k ps) = (\<Union>q \<in> set ps. set (iter_exact f k [q]))"
proof (induction k arbitrary: ps)
  case 0
  then show ?case by simp
next
  case (Suc k)
  have "set (iter_exact f (Suc k) ps) = (\<Union>q' \<in> set (bind_pos f ps). set (iter_exact f k [q']))"
    using Suc [of "bind_pos f ps"] by simp
  also have "\<dots> = (\<Union>q \<in> set ps. \<Union>q' \<in> set (f q). set (iter_exact f k [q']))"
    by (simp add: set_bind_pos)
  also have "\<dots> = (\<Union>q \<in> set ps. set (iter_exact f (Suc k) [q]))"
    using Suc [of "bind_pos f [q]" for q] by (simp add: set_bind_pos)
  finally show ?case .
qed

lemma set_iter_exact_cong:
  "set ps = set ps' \<Longrightarrow> set (iter_exact f k ps) = set (iter_exact f k ps')"
  using set_iter_exact_split [of f k ps] set_iter_exact_split [of f k ps'] by simp

lemma set_iter_exact_Suc:
  "set (iter_exact f (Suc k) [p]) = (\<Union>q \<in> set (f p). set (iter_exact f k [q]))"
  using set_iter_exact_split [of f k "bind_pos f [p]"] by (simp add: set_bind_pos)

lemma set_iter_upto:
  "set (iter_upto f n ps) = (\<Union>k \<in> {..n}. set (iter_exact f k ps))"
proof (induction n arbitrary: ps)
  case 0
  then show ?case by simp
next
  case (Suc n)
  have "set (iter_upto f (Suc n) ps) = set ps \<union> (\<Union>k \<in> {..n}. set (iter_exact f (Suc k) ps))"
    using Suc [of "bind_pos f ps"] by simp
  also have "\<dots> = (\<Union>k \<in> {..Suc n}. set (iter_exact f k ps))"
  proof -
    have "{..Suc n} = insert 0 (Suc ` {..n})"
      by (auto simp: image_iff) (metis atMost_iff not0_implies_Suc not_less_eq_eq)
    then show ?thesis by simp
  qed
  finally show ?case .
qed

lemma iter_exact_add: "iter_exact f (a + b) ps = iter_exact f b (iter_exact f a ps)"
  by (induction a arbitrary: ps) simp_all

text \<open>A round that follows: every position it gives has a shorter rest, or is the
  position it started from.\<close>

lemma iter_exact_follows:
  assumes t: "tame f"
  shows "q' \<in> set (iter_exact f k ps) \<Longrightarrow> \<exists>q \<in> set ps. follows q q'"
proof (induction k arbitrary: ps)
  case 0
  then have "q' \<in> set ps" by simp
  then show ?case using follows_refl by blast
next
  case (Suc k)
  then have "q' \<in> set (iter_exact f k (bind_pos f ps))" by simp
  from Suc.IH [OF this] obtain q1 where "q1 \<in> set (bind_pos f ps)" "follows q1 q'" by blast
  then obtain q where "q \<in> set ps" "q1 \<in> set (f q)" "follows q1 q'"
    unfolding set_bind_pos by blast
  then show ?case using t follows_trans unfolding tame_def by blast
qed

lemma iter_upto_follows:
  assumes t: "tame f" and m: "q' \<in> set (iter_upto f n ps)"
  shows "\<exists>q \<in> set ps. follows q q'"
proof -
  from m obtain k where "q' \<in> set (iter_exact f k ps)" unfolding set_iter_upto by blast
  then show ?thesis using iter_exact_follows [OF t] by blast
qed

lemma step_char_follows: "q' \<in> set (step_char ok q) \<Longrightarrow> follows q q'"
  by (cases q; cases "snd q") (auto simp: follows_def split: if_splits)

lemma tame_run: "tame (run r)"
proof (induction r)
  case (Star r)
  show ?case unfolding tame_def
  proof (intro allI impI)
    fix q q' assume "q' \<in> set (run (Star r) q)"
    then have "q' \<in> set (iter_upto (run r) (Suc (length (snd q))) [q])"
      by (simp del: iter_upto.simps)
    from iter_upto_follows [OF Star this] show "follows q q'" by simp
  qed
next
  case (Plus r)
  show ?case unfolding tame_def
  proof (intro allI impI)
    fix q q' assume "q' \<in> set (run (Plus r) q)"
    then have "q' \<in> set (iter_upto (run r) (Suc (length (snd q))) (run r q))"
      by (simp del: iter_upto.simps)
    from iter_upto_follows [OF Plus this]
    obtain q1 where "q1 \<in> set (run r q)" "follows q1 q'" by blast
    then show "follows q q'" using Plus follows_trans unfolding tame_def by blast
  qed
next
  case (Repeat mn mx r)
  show ?case unfolding tame_def
  proof (intro allI impI)
    fix q q' assume a: "q' \<in> set (run (Repeat mn mx r) q)"
    have "\<exists>n. q' \<in> set (iter_upto (run r) n (iter_exact (run r) mn [q]))"
      using a by (cases mx) (auto simp del: iter_upto.simps iter_exact.simps)
    then obtain n where "q' \<in> set (iter_upto (run r) n (iter_exact (run r) mn [q]))" by blast
    from iter_upto_follows [OF Repeat this]
    obtain q1 where q1: "q1 \<in> set (iter_exact (run r) mn [q])" "follows q1 q'" by blast
    from iter_exact_follows [OF Repeat q1(1)] have "follows q q1" by simp
    then show "follows q q'" using q1(2) follows_trans by blast
  qed
next
  case (Concat r1 r2)
  show ?case unfolding tame_def
  proof (intro allI impI)
    fix q q' assume "q' \<in> set (run (Concat r1 r2) q)"
    then obtain q1 where "q1 \<in> set (run r1 q)" "q' \<in> set (run r2 q1)"
      by (auto simp: set_bind_pos)
    then show "follows q q'" using Concat follows_trans unfolding tame_def by blast
  qed
qed (auto simp: tame_def follows_refl step_char_follows split: if_splits)

lemma run_follows: "q' \<in> set (run r q) \<Longrightarrow> follows q q'"
  using tame_run [of r] unfolding tame_def by blast

text \<open>More rounds than the rest has characters reach nothing new.\<close>

lemma rounds_bounded:
  assumes t: "tame f"
  shows "q' \<in> set (iter_exact f k [p]) \<Longrightarrow> \<exists>j \<le> length (snd p). q' \<in> set (iter_exact f j [p])"
proof (induction k arbitrary: p)
  case 0
  then show ?case by blast
next
  case (Suc k)
  then obtain q1 where q1: "q1 \<in> set (f p)" and r: "q' \<in> set (iter_exact f k [q1])"
    unfolding set_iter_exact_Suc by blast
  show ?case
  proof (cases "q1 = p")
    case True
    then show ?thesis using Suc.IH r by simp
  next
    case False
    then have l: "length (snd q1) < length (snd p)"
      using t q1 unfolding tame_def follows_def by blast
    from Suc.IH [OF r] obtain j where j: "j \<le> length (snd q1)" "q' \<in> set (iter_exact f j [q1])"
      by blast
    then have "q' \<in> set (iter_exact f (Suc j) [p])" using q1 unfolding set_iter_exact_Suc by blast
    moreover have "Suc j \<le> length (snd p)" using j l by simp
    ultimately show ?thesis by blast
  qed
qed

lemma iter_upto_closure:
  assumes t: "tame f"
    and b: "\<forall>q \<in> set ps. length (snd q) \<le> n"
  shows "set (iter_upto f n ps) = (\<Union>k. set (iter_exact f k ps))"
proof
  show "set (iter_upto f n ps) \<subseteq> (\<Union>k. set (iter_exact f k ps))"
    unfolding set_iter_upto by blast
next
  show "(\<Union>k. set (iter_exact f k ps)) \<subseteq> set (iter_upto f n ps)"
  proof
    fix q' assume "q' \<in> (\<Union>k. set (iter_exact f k ps))"
    then obtain k where "q' \<in> set (iter_exact f k ps)" by blast
    then obtain q where q: "q \<in> set ps" and "q' \<in> set (iter_exact f k [q])"
      using set_iter_exact_split [of f k ps] by blast
    from rounds_bounded [OF t this(2)] obtain j where
      j: "j \<le> length (snd q)" "q' \<in> set (iter_exact f j [q])" by blast
    then have "j \<le> n" using b q by fastforce
    moreover have "q' \<in> set (iter_exact f j ps)"
      using j(2) q set_iter_exact_split [of f j ps] by blast
    ultimately show "q' \<in> set (iter_upto f n ps)" unfolding set_iter_upto by blast
  qed
qed

text \<open>The cut of the unbounded repetitions loses nothing: they reach what any number of
  rounds reaches.\<close>

lemma run_Star: "set (run (Star r) p) = (\<Union>k. set (iter_exact (run r) k [p]))"
proof -
  have "set (iter_upto (run r) (Suc (length (snd p))) [p]) = (\<Union>k. set (iter_exact (run r) k [p]))"
    by (rule iter_upto_closure [OF tame_run]) simp
  then show ?thesis by (simp del: iter_upto.simps)
qed

lemma run_Plus: "set (run (Plus r) p) = (\<Union>k. set (iter_exact (run r) (Suc k) [p]))"
proof -
  have "\<forall>q \<in> set (run r p). length (snd q) \<le> Suc (length (snd p))"
    using follows_length [OF run_follows] by fastforce
  then have "set (iter_upto (run r) (Suc (length (snd p))) (run r p)) =
          (\<Union>k. set (iter_exact (run r) k (run r p)))"
    by (rule iter_upto_closure [OF tame_run])
  moreover have "set (iter_exact (run r) k (run r p)) = set (iter_exact (run r) (Suc k) [p])" for k
    using set_iter_exact_cong [of "run r p" "bind_pos (run r) [p]" "run r" k]
    by (simp add: set_bind_pos)
  ultimately show ?thesis by (simp del: iter_upto.simps iter_exact.simps)
qed

lemma run_Repeat_unbounded:
  "set (run (Repeat mn None r) p) = (\<Union>k. set (iter_exact (run r) (mn + k) [p]))"
proof -
  have "\<forall>q \<in> set (iter_exact (run r) mn [p]). length (snd q) \<le> Suc (length (snd p))"
  proof
    fix q assume "q \<in> set (iter_exact (run r) mn [p])"
    from iter_exact_follows [OF tame_run this] have "follows p q" by simp
    then show "length (snd q) \<le> Suc (length (snd p))" using follows_length by fastforce
  qed
  then have "set (iter_upto (run r) (Suc (length (snd p))) (iter_exact (run r) mn [p])) =
          (\<Union>k. set (iter_exact (run r) k (iter_exact (run r) mn [p])))"
    by (rule iter_upto_closure [OF tame_run])
  then show ?thesis by (simp add: iter_exact_add del: iter_upto.simps iter_exact.simps)
qed

lemma run_Repeat_bounded:
  "set (run (Repeat mn (Some m) r) p) = (\<Union>k \<in> {..m - mn}. set (iter_exact (run r) (mn + k) [p]))"
  by (simp add: set_iter_upto iter_exact_add del: iter_upto.simps iter_exact.simps)

subsection \<open>Patterns of plain characters\<close>


lemma parse_plain_char:
  "plain_char c \<Longrightarrow> parse st f lr (c # t) = parse st (push (Literal c) f) False t"
  by (simp add: plain_char_def)

lemma parse_plain:
  "list_all plain_char t \<Longrightarrow>
     parse st (a, cur) lr (t @ rest) =
     parse st (a, rev (map Literal t) @ cur) (if t = [] then lr else False) rest"
proof (induction t arbitrary: cur lr)
  case Nil
  then show ?case by simp
next
  case (Cons c t)
  then have "parse st (a, cur) lr ((c # t) @ rest) = parse st (a, Literal c # cur) False (t @ rest)"
    by (simp add: parse_plain_char push_def del: parse.simps)
  also have "\<dots> = parse st (a, rev (map Literal t) @ Literal c # cur) False rest"
    using Cons by (simp del: parse.simps)
  finally show ?case by (simp del: parse.simps)
qed

lemma MustCompile_plain:
  assumes "list_all plain_char t"
  shows "MustCompile (''^'' @ t @ ''$'') = Inr (exact t)"
proof -
  have "MustCompile (''^'' @ t @ ''$'') = parse [] ([], [BeginText]) False (t @ ''$'')"
    by (simp add: MustCompile_def push_def)
  also have "\<dots> = parse [] ([], rev (map Literal t) @ [BeginText]) (if t = [] then False else False) ''$''"
    using parse_plain [OF assms] by simp
  also have "\<dots> = Inr (close_frame ([], EndText # rev (map Literal t) @ [BeginText]))"
    by (simp add: push_def)
  also have "close_frame ([], EndText # rev (map Literal t) @ [BeginText]) = exact t"
    by (simp add: close_frame_def exact_def rev_map)
  finally show ?thesis .
qed

lemma mk_concat_Cons: "rs \<noteq> [] \<Longrightarrow> mk_concat (r # rs) = Concat r (mk_concat rs)"
  by (cases rs) simp_all

lemma run_literals:
  "run (mk_concat (map Literal t @ [EndText])) (b, s) =
     (if s = t then [(if t = [] then b else False, [])] else [])"
proof (induction t arbitrary: b s)
  case Nil
  then show ?case by auto
next
  case (Cons c t)
  have "run (mk_concat (map Literal (c # t) @ [EndText])) (b, s) =
          bind_pos (run (mk_concat (map Literal t @ [EndText]))) (step_char (\<lambda>x. x = c) (b, s))"
    by (simp add: mk_concat_Cons)
  then show ?case
    using Cons by (cases s) (auto simp: bind_pos_def)
qed

lemma run_exact:
  "run (exact t) (b, s) = (if b \<and> s = t then [(if t = [] then b else False, [])] else [])"
  by (simp add: exact_def mk_concat_Cons run_literals bind_pos_def)

lemma MatchString_exact: "MatchString (exact t) s = (s = t)"
  by (auto simp: MatchString_def starts_def run_exact list_ex_iff)

subsection \<open>The scan of a template\<close>

declare scan_loop.simps [simp del]

lemma scan_step_colon:
  "i < length path \<Longrightarrow> path ! i = CHR '':'' \<Longrightarrow>
     scan_step i (path, vars) = Inr (path, vars\<lparr>firstIndex := i\<rparr>)"
  by (simp add: scan_step_def)

lemma scan_step_idle:
  "i < length path \<Longrightarrow> path ! i \<noteq> CHR '':'' \<Longrightarrow>
   \<not> (firstIndex vars \<noteq> 0 \<and> (path ! i = CHR ''/'' \<or> i = length path - 1)) \<Longrightarrow>
     scan_step i (path, vars) = Inr (path, vars)"
  by (auto simp: scan_step_def)

lemma scan_step_token:
  assumes "i < length path" "path ! i \<noteq> CHR '':''" "firstIndex vars \<noteq> 0"
    "path ! i = CHR ''/'' \<or> i = length path - 1"
  shows "scan_step i (path, vars) =
     (case slice path (firstIndex vars) (token_end i path) of
        Inl e \<Rightarrow> Inl e
      | Inr seg \<Rightarrow>
          if seg = '':number'' then
            Inr (take (firstIndex vars) path @ ''([0-9]{1,})'' @ drop (token_end i path) path,
                 \<lparr>firstIndex = 0, lastIndex = 0\<rparr>)
          else if seg = '':string'' then
            Inr (take (firstIndex vars) path @ ''([a-zA-Z]{1,})'' @ drop (token_end i path) path,
                 \<lparr>firstIndex = 0, lastIndex = 0\<rparr>)
          else Inr (path, vars\<lparr>lastIndex := token_end i path\<rparr>))"
  using assms by (auto simp: scan_step_def token_end_def Let_def split: sum.splits)

lemma token_end_le: "i < length path \<Longrightarrow> i \<le> token_end i path \<and> token_end i path \<le> length path"
  by (auto simp: token_end_def)

lemma scan_step_shape:
  assumes i: "i < length path" and f: "firstIndex vars \<le> i"
  shows "\<exists>path' vars'. scan_step i (path, vars) = Inr (path', vars') \<and>
           (firstIndex vars' = 0 \<or> firstIndex vars' = i \<and> path ! i = CHR '':'' \<or>
            firstIndex vars' = firstIndex vars) \<and>
           (path' = path \<or>
            (\<exists>new. firstIndex vars \<noteq> 0 \<and>
               path' = take (firstIndex vars) path @ new @ drop (token_end i path) path))"
proof (cases "path ! i = CHR '':''")
  case True
  then show ?thesis using i by (simp add: scan_step_colon)
next
  case False
  show ?thesis
  proof (cases "firstIndex vars \<noteq> 0 \<and> (path ! i = CHR ''/'' \<or> i = length path - 1)")
    case idle: False
    then show ?thesis using i False by (simp add: scan_step_idle)
  next
    case tok: True
    have "firstIndex vars \<le> token_end i path \<and> token_end i path \<le> length path"
      using token_end_le [OF i] f by simp
    then obtain seg where "slice path (firstIndex vars) (token_end i path) = Inr seg"
      by (simp add: slice_def)
    then show ?thesis
      using scan_step_token [OF i False, of vars] tok by auto
  qed
qed

lemma scan_loop_invariant:
  assumes step: "\<And>i st. P i st \<Longrightarrow> i < length (fst st) \<Longrightarrow>
                   \<exists>st'. scan_step i st = Inr st' \<and> P (Suc i) st'"
  shows "P i st \<Longrightarrow> \<exists>st' j. scan_loop i st = Inr st' \<and> P j st'"
proof (induction i st rule: scan_loop.induct)
  case (1 i st)
  show ?case
  proof (cases "i < length (fst st)")
    case True
    from step [OF "1.prems" True] obtain st' where s: "scan_step i st = Inr st'" and p: "P (Suc i) st'"
      by blast
    from "1.IH" [OF True s] p obtain st'' j where "scan_loop (i + 1) st' = Inr st''" "P j st''"
      by auto
    then show ?thesis using True s by (subst scan_loop.simps) auto
  next
    case False
    then show ?thesis using "1.prems" by (subst scan_loop.simps) auto
  qed
qed

text \<open>The scan never panics.\<close>

lemma scan_loop_total: "\<exists>st'. scan_loop 0 (path, \<lparr>firstIndex = 0, lastIndex = 0\<rparr>) = Inr st'"
proof -
  have "\<exists>st' j. scan_loop 0 (path, \<lparr>firstIndex = 0, lastIndex = 0\<rparr>) = Inr st' \<and> firstIndex (snd st') \<le> j"
  proof (rule scan_loop_invariant [where P = "\<lambda>i st. firstIndex (snd st) \<le> i"])
    fix i and st :: "string \<times> variable"
    assume a: "firstIndex (snd st) \<le> i" "i < length (fst st)"
    obtain path vars where st: "st = (path, vars)" by (cases st)
    from scan_step_shape [of i path vars] a st
    show "\<exists>st'. scan_step i st = Inr st' \<and> firstIndex (snd st') \<le> Suc i"
      by auto
  qed simp
  then show ?thesis by blast
qed

lemma keyword_nth: "keyword kw \<Longrightarrow> 0 < i \<Longrightarrow> i < 7 \<Longrightarrow> kw ! i \<noteq> CHR '':''"
proof -
  assume k: "keyword kw" and i: "0 < i" "i < 7"
  then have "i = 1 \<or> i = 2 \<or> i = 3 \<or> i = 4 \<or> i = 5 \<or> i = 6" by arith
  then show ?thesis using k by (auto simp: keyword_def)
qed

lemma leading_keyword_kept:
  assumes k: "keyword kw"
  shows "\<exists>p v. scan_loop 0 (kw @ rest, \<lparr>firstIndex = 0, lastIndex = 0\<rparr>) = Inr (p, v) \<and> take 7 p = kw"
proof -
  have len: "length kw = 7" using k by (auto simp: keyword_def)
  let ?P = "\<lambda>i st. firstIndex (snd st) \<le> i \<and> take 7 (fst st) = kw \<and>
                     (firstIndex (snd st) = 0 \<or> 7 \<le> firstIndex (snd st))"
  have "\<exists>st' j. scan_loop 0 (kw @ rest, \<lparr>firstIndex = 0, lastIndex = 0\<rparr>) = Inr st' \<and> ?P j st'"
  proof (rule scan_loop_invariant [where P = ?P])
    fix i and st :: "string \<times> variable"
    assume a: "?P i st" and i: "i < length (fst st)"
    obtain path vars where st: "st = (path, vars)" by (cases st)
    have f: "firstIndex vars \<le> i" and t: "take 7 path = kw"
      and z: "firstIndex vars = 0 \<or> 7 \<le> firstIndex vars" using a st by auto
    from scan_step_shape [of i path vars] i f st
    obtain path' vars' where s: "scan_step i (path, vars) = Inr (path', vars')"
      and fv: "firstIndex vars' = 0 \<or> firstIndex vars' = i \<and> path ! i = CHR '':'' \<or>
               firstIndex vars' = firstIndex vars"
      and pv: "path' = path \<or> (\<exists>new. firstIndex vars \<noteq> 0 \<and>
               path' = take (firstIndex vars) path @ new @ drop (token_end i path) path)"
      by auto
    have colon: "i = 0 \<or> 7 \<le> i" if c: "path ! i = CHR '':''"
    proof (rule ccontr)
      assume "\<not> (i = 0 \<or> 7 \<le> i)"
      then have r: "0 < i" "i < 7" by auto
      then have "path ! i = kw ! i" using t nth_take [of i 7 path] by auto
      then show False using keyword_nth [OF k r] c by simp
    qed
    have "take 7 path' = kw"
    proof -
      { fix new assume n: "firstIndex vars \<noteq> 0"
          and e: "path' = take (firstIndex vars) path @ new @ drop (token_end i path) path"
        have "7 \<le> firstIndex vars" using n z by simp
        moreover have "firstIndex vars \<le> length path" using f i st by simp
        ultimately have "take 7 path' = take 7 path" using e by (simp add: min_def)
      }
      then show ?thesis using pv t by auto
    qed
    moreover have "firstIndex vars' \<le> Suc i" using fv f by auto
    moreover have "firstIndex vars' = 0 \<or> 7 \<le> firstIndex vars'" using fv z colon by auto
    ultimately show "\<exists>st'. scan_step i st = Inr st' \<and> ?P (Suc i) st'"
      using s st by auto
  qed (simp add: len)
  then show ?thesis by auto
qed

subsection \<open>Matchers as constructed\<close>

lemma matchResult_template:
  "matchResult (newPathWithVarsMatcher t) (r\<lparr>URL_Path := p\<rparr>) =
   matchResult (newPathWithVarsMatcher t) (bare p)"
proof (cases "newPathWithVarsMatcher t")
  case (Inl e)
  then show ?thesis by (simp add: matchResult_def)
next
  case (Inr m)
  then obtain re where "m = pathWithVarsMatcher re"
    by (auto simp: newPathWithVarsMatcher_def split: sum.splits)
  then show ?thesis using Inr by (simp add: matchResult_def bare_def)
qed





lemma matchResult_exact:
  assumes "newPathWithVarsMatcher t = Inr (pathWithVarsMatcher (exact u))"
  shows "matchResult (newPathWithVarsMatcher t) r = Inr (URL_Path r = u)"
  unfolding assms by (simp add: matchResult_def MatchString_exact)

lemma newPathWithVarsMatcher_plain:
  assumes "list_all plain_char t" and "scan_loop 0 (t, \<lparr>firstIndex = 0, lastIndex = 0\<rparr>) = Inr (t, v)"
  shows "newPathWithVarsMatcher t = Inr (pathWithVarsMatcher (exact t))"
  using assms by (simp add: newPathWithVarsMatcher_def MustCompile_plain del: append.simps)

lemma keyword_length: "keyword kw \<Longrightarrow> length kw = 7"
  by (auto simp: keyword_def)

lemma keyword_no_slash: "keyword kw \<Longrightarrow> i < 7 \<Longrightarrow> kw ! i \<noteq> CHR ''/''"
proof -
  assume k: "keyword kw" and i: "i < 7"
  then have "i = 0 \<or> i = 1 \<or> i = 2 \<or> i = 3 \<or> i = 4 \<or> i = 5 \<or> i = 6" by arith
  then show ?thesis using k by (auto simp: keyword_def)
qed

lemma keyword_hd: "keyword kw \<Longrightarrow> kw ! 0 = CHR '':''"
  by (auto simp: keyword_def)

lemma trailing_slash_kept:
  assumes k: "keyword kw" and c: "CHR '':'' \<notin> set pre"
  shows "\<exists>v. scan_loop 0 (pre @ kw @ ''/'', \<lparr>firstIndex = 0, lastIndex = 0\<rparr>) = Inr (pre @ kw @ ''/'', v)"
proof -
  define n where "n = length pre"
  define t where "t = pre @ kw @ ''/''"
  have len: "length t = n + 8" using keyword_length [OF k] by (simp add: t_def n_def)
  have at_pre: "t ! i \<noteq> CHR '':''" if "i < n" for i
  proof -
    have "pre ! i \<in> set pre" using that by (simp add: n_def)
    then have "pre ! i \<noteq> CHR '':''" using c by metis
    moreover have "t ! i = pre ! i" using that by (simp add: t_def n_def nth_append)
    ultimately show ?thesis by simp
  qed
  have at_kw: "t ! (n + j) = kw ! j" if "j < 7" for j
    using that keyword_length [OF k] by (simp add: t_def n_def nth_append)
  have at_end: "t ! (n + 7) = CHR ''/''"
    using keyword_length [OF k] by (simp add: t_def n_def nth_append)
  have seg: "slice t n (n + 8) = Inr (kw @ ''/'')"
    using keyword_length [OF k] by (simp add: slice_def t_def n_def)
  have nk: "\<not> keyword (kw @ ''/'')"
    using keyword_length [OF k] keyword_length [of "kw @ ''/''"] by auto
  let ?P = "\<lambda>i st. fst st = t \<and> firstIndex (snd st) = (if i \<le> n then 0 else n)"
  have "\<exists>st' j. scan_loop 0 (t, \<lparr>firstIndex = 0, lastIndex = 0\<rparr>) = Inr st' \<and> ?P j st'"
  proof (rule scan_loop_invariant [where P = ?P])
    fix i and st :: "string \<times> variable"
    assume a: "?P i st" and "i < length (fst st)"
    then have i: "i < n + 8" using len by simp
    obtain vars where st: "st = (t, vars)" using a by (cases st) auto
    have f: "firstIndex vars = (if i \<le> n then 0 else n)" using a st by simp
    have il: "i < length t" using i len by simp
    consider (pre) "i < n" | (colon) "i = n" | (kw) "n < i" "i < n + 7" | (slash) "i = n + 7"
      using i by linarith
    then show "\<exists>st'. scan_step i st = Inr st' \<and> ?P (Suc i) st'"
    proof cases
      case pre
      then have "scan_step i (t, vars) = Inr (t, vars)"
        using scan_step_idle [OF il at_pre [OF pre], of vars] f by simp
      then show ?thesis using st f pre by simp
    next
      case colon
      have "t ! i = CHR '':''" using at_kw [of 0] keyword_hd [OF k] colon by simp
      then have "scan_step i (t, vars) = Inr (t, vars\<lparr>firstIndex := i\<rparr>)"
        using scan_step_colon [OF il] by simp
      then show ?thesis using st colon by simp
    next
      case kw
      define j where "j = i - n"
      have j: "0 < j" "j < 7" "i = n + j" using kw by (auto simp: j_def)
      have 1: "t ! i \<noteq> CHR '':''" using at_kw [OF j(2)] keyword_nth [OF k j(1,2)] j(3) by simp
      have 2: "t ! i \<noteq> CHR ''/''" using at_kw [OF j(2)] keyword_no_slash [OF k j(2)] j(3) by simp
      have 3: "i \<noteq> length t - 1" using kw len by simp
      have "scan_step i (t, vars) = Inr (t, vars)"
        using scan_step_idle [OF il 1, of vars] 2 3 by simp
      then show ?thesis using st f kw by simp
    next
      case slash
      have 1: "t ! i \<noteq> CHR '':''" using at_end slash by simp
      have te: "token_end i t = n + 8" using slash len by (simp add: token_end_def)
      show ?thesis
      proof (cases "n = 0")
        case True
        then have "scan_step i (t, vars) = Inr (t, vars)"
          using scan_step_idle [OF il 1, of vars] f slash by simp
        then show ?thesis using st f slash True by simp
      next
        case False
        then have f': "firstIndex vars = n" "firstIndex vars \<noteq> 0" using f slash by auto
        have "scan_step i (t, vars) = Inr (t, vars\<lparr>lastIndex := n + 8\<rparr>)"
          using scan_step_token [OF il 1 f'(2)] at_end slash seg nk te f'(1)
          by (simp add: keyword_def)
        then show ?thesis using st f' slash by simp
      qed
    qed
  qed simp
  then show ?thesis unfolding t_def by auto
qed

lemma last_token_step:
  assumes i: "i < length path" "i = length path - 1" and s: "path ! i = CHR ''/''"
    and f: "firstIndex vars \<noteq> 0" "firstIndex vars \<le> i"
  shows "token_end i path = length path \<and>
         slice path (firstIndex vars) (token_end i path) = Inr (drop (firstIndex vars) path) \<and>
         last (drop (firstIndex vars) path) = CHR ''/'' \<and>
         \<not> keyword (drop (firstIndex vars) path) \<and>
         scan_step i (path, vars) = Inr (path, vars\<lparr>lastIndex := length path\<rparr>)"
proof -
  have te: "token_end i path = length path" using i by (simp add: token_end_def)
  have sl: "slice path (firstIndex vars) (length path) = Inr (drop (firstIndex vars) path)"
    using i f by (simp add: slice_def)
  have ne: "drop (firstIndex vars) path \<noteq> []" using i f by simp
  have "last (drop (firstIndex vars) path) = last path" using ne by simp
  also have "\<dots> = path ! i" using i by (cases path rule: rev_cases) (auto simp: nth_append)
  finally have la: "last (drop (firstIndex vars) path) = CHR ''/''" using s by simp
  have nk: "\<not> keyword (drop (firstIndex vars) path)"
    using la by (auto simp: keyword_def)
  have ne': "path ! i \<noteq> CHR '':''" using s by simp
  have "scan_step i (path, vars) = Inr (path, vars\<lparr>lastIndex := length path\<rparr>)"
    using scan_step_token [OF i(1) ne' f(1)] s sl nk te by (simp add: keyword_def)
  then show ?thesis using te sl la nk by simp
qed



section \<open>The claims\<close>




text \<open>
  C2. The matcher of the template \<^verbatim>\<open>/users/:number\<close> accepts a request with the path
  \<^verbatim>\<open>/users/42\<close> and rejects the paths \<^verbatim>\<open>/users/abc\<close> and \<^verbatim>\<open>/users/42/extra\<close>; the
  matcher of \<^verbatim>\<open>/users/:string/profile\<close> accepts \<^verbatim>\<open>/users/alice/profile\<close> and rejects
  \<^verbatim>\<open>/users/42/profile\<close>. The request \<open>r\<close> is any request, given the path in question.
\<close>

theorem C2_placeholder_examples:
  "matchResult (newPathWithVarsMatcher ''/users/:number'') (r\<lparr>URL_Path := ''/users/42''\<rparr>) = Inr True \<and>
   matchResult (newPathWithVarsMatcher ''/users/:number'') (r\<lparr>URL_Path := ''/users/abc''\<rparr>) = Inr False \<and>
   matchResult (newPathWithVarsMatcher ''/users/:number'') (r\<lparr>URL_Path := ''/users/42/extra''\<rparr>) = Inr False \<and>
   matchResult (newPathWithVarsMatcher ''/users/:string/profile'') (r\<lparr>URL_Path := ''/users/alice/profile''\<rparr>) = Inr True \<and>
   matchResult (newPathWithVarsMatcher ''/users/:string/profile'') (r\<lparr>URL_Path := ''/users/42/profile''\<rparr>) = Inr False"
proof -
  have 1: "matchResult (newPathWithVarsMatcher ''/users/:number'') (bare ''/users/42'') = Inr True"
    by code_simp
  have 2: "matchResult (newPathWithVarsMatcher ''/users/:number'') (bare ''/users/abc'') = Inr False"
    by code_simp
  have 3: "matchResult (newPathWithVarsMatcher ''/users/:number'') (bare ''/users/42/extra'') = Inr False"
    by code_simp
  have 4: "matchResult (newPathWithVarsMatcher ''/users/:string/profile'') (bare ''/users/alice/profile'') = Inr True"
    by code_simp
  have 5: "matchResult (newPathWithVarsMatcher ''/users/:string/profile'') (bare ''/users/42/profile'') = Inr False"
    by code_simp
  show ?thesis
    unfolding matchResult_template 1 2 3 4 5 by simp
qed




text \<open>
  C4. The patterns of both path matchers are compiled between \<^verbatim>\<open>^\<close> and \<^verbatim>\<open>$\<close>, and the
  pattern \<^verbatim>\<open>/a\<close> rejects the path \<^verbatim>\<open>/ab\<close>. But the anchors are put around the text of
  the pattern, and an alternation at its top level takes one anchor into each branch: the
  pattern \<^verbatim>\<open>/a|/b\<close>, which does not match the whole of \<^verbatim>\<open>/ab\<close>, is compiled as
  \<^verbatim>\<open>^/a|/b$\<close> and accepts the path \<^verbatim>\<open>/ab\<close>.
\<close>

theorem C4_alternation_escapes_anchors:
  "matchResult (newPathRegexMatcher ''/a'') (bare ''/ab'') = Inr False \<and>
   matchResult (newPathWithVarsMatcher ''/a'') (bare ''/ab'') = Inr False \<and>
   matchResult (newPathRegexMatcher ''/a|/b'') (bare ''/ab'') = Inr True \<and>
   matchResult (newPathWithVarsMatcher ''/a|/b'') (bare ''/ab'') = Inr True \<and>
   (case MustCompile ''/a|/b'' of Inl e \<Rightarrow> False | Inr re \<Rightarrow> \<not> fullMatch re ''/ab'')"
  by code_simp


text \<open>
  C6. The three ranks are ordered \<open>any < path < scheme\<close>. The rank of a matcher depends on
  its kind alone. \<^verbatim>\<open>Less(i, j)\<close> is the comparison of the ranks of the elements at \<open>i\<close>
  and \<open>j\<close>. Sorting three matchers of the ranks scheme, any, path puts them in the order
  any, path, scheme.
\<close>

theorem C6_rank_order:
  "rankAny < rankPath \<and> rankPath < rankScheme \<and>
   Rank (headerMatcher h) = rankAny \<and> Rank (headerRegexMatcher h) = rankAny \<and>
   Rank (MatcherFunc f) = rankAny \<and>
   Rank (pathMatcher s) = rankPath \<and> Rank (pathRegexMatcher re) = rankPath \<and>
   Rank (pathWithVarsMatcher re) = rankPath \<and>
   Rank (schemeMatcher ss) = rankScheme \<and>
   (in_range m i \<and> in_range m j \<longrightarrow> Less m i j = Inr (Rank (m ! nat i) < Rank (m ! nat j))) \<and>
   (Rank a = rankScheme \<and> Rank b = rankAny \<and> Rank c = rankPath \<longrightarrow> Sort [a, b, c] = Inr [b, c, a])"
  by (simp add: Sort_def Len_def Less_def Swap_def in_range_def rankAny_def rankPath_def
        rankScheme_def upt_rec)

theorem C6_rank_order_witness:
  "in_range [schemeMatcher {''http''}, pathMatcher ''/''] 0 \<and>
   in_range [schemeMatcher {''http''}, pathMatcher ''/''] 1 \<and>
   Less [schemeMatcher {''http''}, pathMatcher ''/''] 0 1 = Inr False \<and>
   Less [schemeMatcher {''http''}, pathMatcher ''/''] 1 0 = Inr True \<and>
   Sort [schemeMatcher {''http''}, headerMatcher [], pathMatcher ''/''] =
     Inr [headerMatcher [], pathMatcher ''/'', schemeMatcher {''http''}]"
  using C6_rank_order [of _ _ _ _ _ "[schemeMatcher {''http''}, pathMatcher ''/'']" 0 1
      "schemeMatcher {''http''}" "headerMatcher []" "pathMatcher ''/''"]
    C6_rank_order [of _ _ _ _ _ "[schemeMatcher {''http''}, pathMatcher ''/'']" 1 0]
  by (simp add: in_range_def rankAny_def rankPath_def rankScheme_def)





text \<open>
  C9. A template that begins with a placeholder keyword keeps it: the start index 0 that
  the scan records at the colon is the value of a variable that is not set, so the end of
  the token is never acted on. The template \<^verbatim>\<open>:number\<close> is left as it is, compiles to
  the pattern \<^verbatim>\<open>^:number$\<close>, and its matcher accepts the path \<^verbatim>\<open>:number\<close> and no other,
  so no path of digits.
\<close>

theorem C9_leading_placeholder:
  "(keyword kw \<longrightarrow>
      (\<exists>p v. scan_loop 0 (kw @ rest, \<lparr>firstIndex = 0, lastIndex = 0\<rparr>) = Inr (p, v) \<and> take 7 p = kw)) \<and>
   scan_loop 0 ('':number'', \<lparr>firstIndex = 0, lastIndex = 0\<rparr>) =
     Inr ('':number'', \<lparr>firstIndex = 0, lastIndex = 0\<rparr>) \<and>
   MustCompile ''^:number$'' = Inr (exact '':number'') \<and>
   newPathWithVarsMatcher '':number'' = Inr (pathWithVarsMatcher (exact '':number'')) \<and>
   matchResult (newPathWithVarsMatcher '':number'') r = Inr (URL_Path r = '':number'') \<and>
   matchResult (newPathWithVarsMatcher '':number'') (r\<lparr>URL_Path := ''42''\<rparr>) = Inr False"
proof -
  have s: "scan_loop 0 ('':number'', \<lparr>firstIndex = 0, lastIndex = 0\<rparr>) =
     Inr ('':number'', \<lparr>firstIndex = 0, lastIndex = 0\<rparr>)"
    by code_simp
  have p: "list_all plain_char '':number''" by code_simp
  have c: "MustCompile (''^'' @ '':number'' @ ''$'') = Inr (exact '':number'')"
    by (rule MustCompile_plain [OF p])
  have m: "newPathWithVarsMatcher '':number'' = Inr (pathWithVarsMatcher (exact '':number''))"
    by (rule newPathWithVarsMatcher_plain [OF p s])
  show ?thesis
    using leading_keyword_kept [of kw rest] s c m matchResult_exact [OF m]
    by simp
qed

theorem C9_leading_placeholder_witness:
  "keyword '':string'' \<and>
   (\<exists>p v. scan_loop 0 ('':string/:number'', \<lparr>firstIndex = 0, lastIndex = 0\<rparr>) = Inr (p, v) \<and>
          take 7 p = '':string'')"
  using C9_leading_placeholder [of "'':string''" "''/:number''"]
  by (simp add: keyword_def)

text \<open>
  C10. At a \<^verbatim>\<open>/\<close> that is the last character of the template, with a start index
  recorded, the end index is moved past that character: the token taken reaches the end of
  the template, ends with the \<^verbatim>\<open>/\<close>, is no keyword, and the template stays as it is. So
  a template that ends with a keyword and a \<^verbatim>\<open>/\<close>, with no colon before the keyword,
  comes out of the scan unchanged. The template \<^verbatim>\<open>/users/:number/\<close> compiles to the
  pattern \<^verbatim>\<open>^/users/:number/$\<close>, and its matcher accepts the path \<^verbatim>\<open>/users/:number/\<close>
  and no other.
\<close>

theorem C10_trailing_slash:
  "(i < length path \<and> i = length path - 1 \<and> path ! i = CHR ''/'' \<and>
    firstIndex vars \<noteq> 0 \<and> firstIndex vars \<le> i \<longrightarrow>
      token_end i path = length path \<and>
      slice path (firstIndex vars) (token_end i path) = Inr (drop (firstIndex vars) path) \<and>
      last (drop (firstIndex vars) path) = CHR ''/'' \<and>
      \<not> keyword (drop (firstIndex vars) path) \<and>
      scan_step i (path, vars) = Inr (path, vars\<lparr>lastIndex := length path\<rparr>)) \<and>
   (keyword kw \<and> CHR '':'' \<notin> set pre \<longrightarrow>
      (\<exists>v. scan_loop 0 (pre @ kw @ ''/'', \<lparr>firstIndex = 0, lastIndex = 0\<rparr>) =
            Inr (pre @ kw @ ''/'', v))) \<and>
   scan_loop 0 (''/users/:number/'', \<lparr>firstIndex = 0, lastIndex = 0\<rparr>) =
     Inr (''/users/:number/'', \<lparr>firstIndex = 7, lastIndex = 15\<rparr>) \<and>
   MustCompile ''^/users/:number/$'' = Inr (exact ''/users/:number/'') \<and>
   newPathWithVarsMatcher ''/users/:number/'' = Inr (pathWithVarsMatcher (exact ''/users/:number/'')) \<and>
   matchResult (newPathWithVarsMatcher ''/users/:number/'') r = Inr (URL_Path r = ''/users/:number/'') \<and>
   matchResult (newPathWithVarsMatcher ''/users/:number/'') (r\<lparr>URL_Path := ''/users/42/''\<rparr>) = Inr False"
proof -
  have s: "scan_loop 0 (''/users/:number/'', \<lparr>firstIndex = 0, lastIndex = 0\<rparr>) =
     Inr (''/users/:number/'', \<lparr>firstIndex = 7, lastIndex = 15\<rparr>)"
    by code_simp
  have p: "list_all plain_char ''/users/:number/''" by code_simp
  have c: "MustCompile (''^'' @ ''/users/:number/'' @ ''$'') = Inr (exact ''/users/:number/'')"
    by (rule MustCompile_plain [OF p])
  have m: "newPathWithVarsMatcher ''/users/:number/'' = Inr (pathWithVarsMatcher (exact ''/users/:number/''))"
    by (rule newPathWithVarsMatcher_plain [OF p s])
  have 1: "i < length path \<and> i = length path - 1 \<and> path ! i = CHR ''/'' \<and>
    firstIndex vars \<noteq> 0 \<and> firstIndex vars \<le> i \<longrightarrow>
      token_end i path = length path \<and>
      slice path (firstIndex vars) (token_end i path) = Inr (drop (firstIndex vars) path) \<and>
      last (drop (firstIndex vars) path) = CHR ''/'' \<and>
      \<not> keyword (drop (firstIndex vars) path) \<and>
      scan_step i (path, vars) = Inr (path, vars\<lparr>lastIndex := length path\<rparr>)"
    using last_token_step [of i path vars] by blast
  have 2: "keyword kw \<and> CHR '':'' \<notin> set pre \<longrightarrow>
      (\<exists>v. scan_loop 0 (pre @ kw @ ''/'', \<lparr>firstIndex = 0, lastIndex = 0\<rparr>) =
            Inr (pre @ kw @ ''/'', v))"
    using trailing_slash_kept [of kw pre] by blast
  have 3: "matchResult (newPathWithVarsMatcher ''/users/:number/'') r = Inr (URL_Path r = ''/users/:number/'')" for r
    by (rule matchResult_exact [OF m])
  have 4: "MustCompile ''^/users/:number/$'' = Inr (exact ''/users/:number/'')"
    using c by simp
  have 5: "matchResult (newPathWithVarsMatcher ''/users/:number/'') (r\<lparr>URL_Path := ''/users/42/''\<rparr>) = Inr False"
    unfolding 3 by simp
  from 1 2 s 4 m 3 5 show ?thesis by blast
qed

theorem C10_trailing_slash_witness:
  "(14::nat) < length ''/users/:number/'' \<and> (14::nat) = length ''/users/:number/'' - 1 \<and>
   ''/users/:number/'' ! 14 = CHR ''/'' \<and>
   scan_step 14 (''/users/:number/'', \<lparr>firstIndex = 7, lastIndex = 0\<rparr>) =
     Inr (''/users/:number/'', \<lparr>firstIndex = 7, lastIndex = 15\<rparr>) \<and>
   slice ''/users/:number/'' 7 15 = Inr '':number/'' \<and>
   keyword '':string'' \<and> CHR '':'' \<notin> set ''/items/'' \<and>
   (\<exists>v. scan_loop 0 (''/items/:string/'', \<lparr>firstIndex = 0, lastIndex = 0\<rparr>) =
        Inr (''/items/:string/'', v))"
  using C10_trailing_slash [of 14 "''/users/:number/''" "\<lparr>firstIndex = 7, lastIndex = 0\<rparr>"
      "'':string''" "''/items/''"]
  by (simp add: keyword_def token_end_def)

end
